theory Spec2Isabelle
  imports Main "HOL-Library.Word"
begin

unbundle bit_operations_syntax

section \<open>The bounded single-producer/single-consumer ring buffer\<close>

text \<open>
  Embedding of \<^verbatim>\<open>SPSCQueue<T, PowerOfTwoCapacity>\<close> from
  \<^verbatim>\<open>Lock_Free_Ring_Buffer/spsc_queue.cpp\<close>, executed on one thread.

  \<^item> \<^verbatim>\<open>buf_\<close> is a list of slots. A slot is \<open>None\<close> while it is raw storage with no
    live element, and \<open>Some x\<close> between the placement-new that built \<open>x\<close> and the
    destructor call that ends its lifetime.
  \<^item> \<^verbatim>\<open>head_\<close> and \<^verbatim>\<open>tail_\<close> are natural numbers. An index the class writes is
    always masked, so it stays below the capacity and \<^verbatim>\<open>head + 1\<close> never wraps around
    in \<^verbatim>\<open>std::size_t\<close>; lemma \<open>next_index_size_t\<close> below shows that the masked step
    on numbers is the masked step on machine words in any case.
  \<^item> The template argument \<^verbatim>\<open>PowerOfTwoCapacity\<close> is the number of slots of
    \<^verbatim>\<open>buf_\<close>.
  \<^item> The atomic loads and stores are plain reads and writes: one thread runs all calls.
\<close>

record 'a queue =
  buf :: "'a option list"
  head :: nat
  tail :: nat

text \<open>
  How a call ends: it returns a value, an exception of the element type leaves it, or
  it has undefined behaviour (a slot outside \<^verbatim>\<open>buf_\<close> is touched, or a slot with no
  live element is read or destroyed).
\<close>

datatype ('e, 'r) outcome = Returned 'r | Raised 'e | Undefined

definition CAP :: "'a queue \<Rightarrow> nat" where
  "CAP q = length (buf q)"

definition MASK :: "'a queue \<Rightarrow> nat" where
  "MASK q = CAP q - 1"

text \<open>
  The constructor. Its two \<^verbatim>\<open>static_assert\<close>s reject a capacity that is below two
  or not a power of two: no queue exists then.
\<close>

definition SPSCQueue :: "nat \<Rightarrow> 'a queue option" where
  "SPSCQueue PowerOfTwoCapacity =
     (if \<not> PowerOfTwoCapacity \<ge> 2 then None
      else if \<not> (PowerOfTwoCapacity AND (PowerOfTwoCapacity - 1)) = 0 then None
      else Some \<lparr>buf = replicate PowerOfTwoCapacity None, head = 0, tail = 0\<rparr>)"

text \<open>
  The three producer calls. Each takes the constructor of \<^verbatim>\<open>T\<close> that its
  placement-new runs: the copy constructor for \<^verbatim>\<open>try_push(const T&)\<close>, the move
  constructor for \<^verbatim>\<open>try_push(T&&)\<close>, the constructor chosen by the forwarded
  arguments for \<^verbatim>\<open>try_emplace\<close>. A constructor returns \<open>Inr x\<close> when it builds the
  element \<open>x\<close> and \<open>Inl e\<close> when it throws \<open>e\<close>; a throw leaves the slot raw storage
  and skips the store to \<^verbatim>\<open>head_\<close>. The address \<^verbatim>\<open>elem_addr(head)\<close> is taken before
  the constructor runs, so an index outside the buffer is undefined behaviour first.
  A placement-new on a slot that holds a live element replaces it.
\<close>

definition try_push ::
    "('a \<Rightarrow> 'e + 'a) \<Rightarrow> 'a \<Rightarrow> 'a queue \<Rightarrow> ('e, bool) outcome \<times> 'a queue" where
  "try_push copy_ctor v q =
     (let h = head q;
          next = (h + 1) AND MASK q
      in if next = tail q then (Returned False, q)
         else if \<not> h < CAP q then (Undefined, q)
         else (case copy_ctor v of
                 Inl e \<Rightarrow> (Raised e, q)
               | Inr x \<Rightarrow> (Returned True, q\<lparr>buf := (buf q)[h := Some x], head := next\<rparr>)))"

definition try_push_move ::
    "('a \<Rightarrow> 'e + 'a) \<Rightarrow> 'a \<Rightarrow> 'a queue \<Rightarrow> ('e, bool) outcome \<times> 'a queue" where
  "try_push_move move_ctor v q =
     (let h = head q;
          next = (h + 1) AND MASK q
      in if next = tail q then (Returned False, q)
         else if \<not> h < CAP q then (Undefined, q)
         else (case move_ctor v of
                 Inl e \<Rightarrow> (Raised e, q)
               | Inr x \<Rightarrow> (Returned True, q\<lparr>buf := (buf q)[h := Some x], head := next\<rparr>)))"

definition try_emplace ::
    "('x \<Rightarrow> 'e + 'a) \<Rightarrow> 'x \<Rightarrow> 'a queue \<Rightarrow> ('e, bool) outcome \<times> 'a queue" where
  "try_emplace ctor args q =
     (let h = head q;
          next = (h + 1) AND MASK q
      in if next = tail q then (Returned False, q)
         else if \<not> h < CAP q then (Undefined, q)
         else (case ctor args of
                 Inl e \<Rightarrow> (Raised e, q)
               | Inr x \<Rightarrow> (Returned True, q\<lparr>buf := (buf q)[h := Some x], head := next\<rparr>)))"

text \<open>
  The consumer call. The last component of the result is the out-parameter after the
  call. \<^verbatim>\<open>out = *p\<close> is the copy assignment of \<^verbatim>\<open>T\<close>, taken to make \<^verbatim>\<open>out\<close> equal
  to the slot's element and not to throw; the destructor call turns the slot back into
  raw storage.
\<close>

definition try_pop :: "'a queue \<Rightarrow> 'a \<Rightarrow> ('e, bool) outcome \<times> 'a queue \<times> 'a" where
  "try_pop q out =
     (let t = tail q
      in if t = head q then (Returned False, q, out)
         else if \<not> t < CAP q then (Undefined, q, out)
         else (case buf q ! t of
                 None \<Rightarrow> (Undefined, q, out)
               | Some x \<Rightarrow>
                   (Returned True,
                    q\<lparr>buf := (buf q)[t := None], tail := (t + 1) AND MASK q\<rparr>, x)))"

definition empty :: "'a queue \<Rightarrow> bool" where
  "empty q = (tail q = head q)"

definition full :: "'a queue \<Rightarrow> bool" where
  "full q = (let h = head q; next = (h + 1) AND MASK q in next = tail q)"

text \<open>The number of live elements in a buffer; every pass of the loop below lowers it.\<close>

definition live_count :: "'a option list \<Rightarrow> nat" where
  "live_count b = length (filter (\<lambda>s. s \<noteq> None) b)"

text \<open>
  The loop of \<^verbatim>\<open>clear()\<close>. The last argument collects the destructor calls made so
  far, oldest first, each as the slot index and the element destroyed there. \<open>None\<close>
  is undefined behaviour: a destructor call on a slot with no live element, or outside
  the buffer.
\<close>

function clear_loop ::
    "nat \<Rightarrow> nat \<Rightarrow> nat \<Rightarrow> 'a option list \<Rightarrow> (nat \<times> 'a) list
       \<Rightarrow> ((nat \<times> 'a) list \<times> nat \<times> 'a option list) option" where
  "clear_loop msk h t b ds =
     (if t \<noteq> h then
        (if \<not> t < length b then None
         else (case b ! t of
                 None \<Rightarrow> None
               | Some x \<Rightarrow> clear_loop msk h ((t + 1) AND msk) (b[t := None]) (ds @ [(t, x)])))
      else Some (ds, t, b))"
  by pat_completeness auto
termination clear_loop
proof (relation "measure (\<lambda>(msk, h, t, b, ds). live_count b)", goal_cases)
  case 1
  show ?case by simp
next
  case (2 msk h t b ds x)
  have "live_count (c[i := None]) < live_count c" if "i < length c" and "c ! i = Some x"
    for i and c :: "'a option list"
    using that
  proof (induction c arbitrary: i)
    case Nil
    then show ?case by simp
  next
    case (Cons s c)
    show ?case
    proof (cases i)
      case 0
      with Cons.prems show ?thesis by (simp add: live_count_def)
    next
      case (Suc j)
      with Cons.prems have "live_count (c[j := None]) < live_count c"
        by (intro Cons.IH) simp_all
      with Suc show ?thesis by (simp add: live_count_def)
    qed
  qed
  with 2 show ?case by simp
qed

definition clear :: "'a queue \<Rightarrow> ('e, (nat \<times> 'a) list) outcome \<times> 'a queue" where
  "clear q =
     (case clear_loop (MASK q) (head q) (tail q) (buf q) [] of
        None \<Rightarrow> (Undefined, q)
      | Some (ds, t, b) \<Rightarrow> (Returned ds, q\<lparr>buf := b, tail := t\<rparr>))"

text \<open>The destructor \<^verbatim>\<open>~SPSCQueue()\<close> is one call of \<^verbatim>\<open>clear()\<close>.\<close>

definition destructor :: "'a queue \<Rightarrow> ('e, (nat \<times> 'a) list) outcome \<times> 'a queue" where
  "destructor q = clear q"

subsection \<open>Single-threaded runs\<close>

text \<open>
  A run is a list of calls made one after the other on one thread, with one variable
  as the out-parameter of every \<^verbatim>\<open>try_pop\<close>. The run records each call with how it
  ended and the out-parameter after it. An exception thrown by the element's
  constructor is caught by the caller, who goes on; undefined behaviour ends the run.
\<close>

datatype 'a call = Push 'a | Pop

fun run ::
    "('a \<Rightarrow> 'e + 'a) \<Rightarrow> 'a call list \<Rightarrow> 'a queue \<Rightarrow> 'a
       \<Rightarrow> ('a call \<times> ('e, bool) outcome \<times> 'a) list \<times> 'a queue \<times> 'a" where
  "run copy_ctor [] q out = ([], q, out)"
| "run copy_ctor (Push v # cs) q out =
     (case try_push copy_ctor v q of
        (Undefined, q') \<Rightarrow> ([(Push v, Undefined, out)], q', out)
      | (r, q') \<Rightarrow>
          (case run copy_ctor cs q' out of
             (tr, qf, outf) \<Rightarrow> ((Push v, r, out) # tr, qf, outf)))"
| "run copy_ctor (Pop # cs) q out =
     (case try_pop q out of
        (Undefined, q', out') \<Rightarrow> ([(Pop, Undefined, out')], q', out')
      | (r, q', out') \<Rightarrow>
          (case run copy_ctor cs q' out' of
             (tr, qf, outf) \<Rightarrow> ((Pop, r, out') # tr, qf, outf)))"

text \<open>The values given to the pushes that returned true, in call order.\<close>

fun pushed :: "('a call \<times> ('e, bool) outcome \<times> 'a) list \<Rightarrow> 'a list" where
  "pushed [] = []"
| "pushed ((Push v, Returned True, out) # tr) = v # pushed tr"
| "pushed (ev # tr) = pushed tr"

text \<open>The values the pops that returned true left in the out-parameter, in call order.\<close>

fun popped :: "('a call \<times> ('e, bool) outcome \<times> 'a) list \<Rightarrow> 'a list" where
  "popped [] = []"
| "popped ((Pop, Returned True, out) # tr) = out # popped tr"
| "popped (ev # tr) = popped tr"

text \<open>No call of the run had undefined behaviour.\<close>

definition defined :: "('a call \<times> ('e, bool) outcome \<times> 'a) list \<Rightarrow> bool" where
  "defined tr = (Undefined \<notin> set (map (\<lambda>ev. fst (snd ev)) tr))"

subsection \<open>The invariant of the class\<close>

text \<open>
  What the constructor establishes and every member function keeps: the capacity
  passes the two \<^verbatim>\<open>static_assert\<close>s, and both indices are slots of the buffer.
\<close>

definition indices_ok :: "'a queue \<Rightarrow> bool" where
  "indices_ok q =
     (2 \<le> CAP q \<and> CAP q AND (CAP q - 1) = 0 \<and> head q < CAP q \<and> tail q < CAP q)"

text \<open>How many slots after \<^verbatim>\<open>tail_\<close> slot \<open>i\<close> lies, going round the ring.\<close>

definition offset :: "'a queue \<Rightarrow> nat \<Rightarrow> nat" where
  "offset q i = (i + CAP q - tail q) mod CAP q"

text \<open>
  The queue \<open>q\<close> holds the elements \<open>xs\<close>, oldest first: they are live in the slots
  from \<^verbatim>\<open>tail_\<close> up to \<^verbatim>\<open>head_\<close> going round the ring, and every other slot is
  raw storage.
\<close>

definition represents :: "'a queue \<Rightarrow> 'a list \<Rightarrow> bool" where
  "represents q xs =
     (indices_ok q \<and> length xs < CAP q \<and> head q = (tail q + length xs) mod CAP q \<and>
      buf q = map (\<lambda>i. if offset q i < length xs then Some (xs ! offset q i) else None)
                  [0..<CAP q])"

section \<open>Arithmetic of the index mask\<close>

text \<open>
  The index step on numbers is the index step of the code on \<^verbatim>\<open>std::size_t\<close>:
  computed on machine words of any width, wrap-around of \<^verbatim>\<open>head + 1\<close> included,
  \<^verbatim>\<open>(i + 1) & MASK\<close> is the number the model computes from the numbers \<open>i\<close> and
  \<open>MASK\<close>.
\<close>

lemma next_index_size_t:
  fixes h m :: "'w::len word"
  shows "unat ((h + 1) AND m) = (unat h + 1) AND unat m"
proof (rule bit_eqI)
  fix n
  have hm: "h + 1 = word_of_nat (unat h + 1)" by simp
  have "bit (word_of_nat (unat h + 1) :: 'w word) n \<longleftrightarrow> n < LENGTH('w) \<and> bit (unat h + 1) n"
    using bit_of_nat_iff [where ?'a = "'w word", of "unat h + 1" n]
    by (simp only: possible_bit_word)
  then have "bit (h + 1) n \<longleftrightarrow> n < LENGTH('w) \<and> bit (unat h + 1) n"
    by (simp only: hm [symmetric])
  moreover have "n < LENGTH('w)" if "bit m n" using that by (rule bit_imp_le_length)
  ultimately show "bit (unat ((h + 1) AND m)) n = bit ((unat h + 1) AND unat m) n"
    by (auto simp: bit_simps)
qed

text \<open>A capacity the second \<^verbatim>\<open>static_assert\<close> accepts is a power of two.\<close>

lemma and_pred_zero_is_pow2:
  fixes n :: nat
  shows "0 < n \<Longrightarrow> n AND (n - 1) = 0 \<Longrightarrow> \<exists>k. n = 2 ^ k"
proof (induction n rule: less_induct)
  case (less n)
  show ?case
  proof (cases "even n")
    case True
    then obtain m where m: "n = 2 * m" by (elim evenE)
    with less.prems have mpos: "0 < m" by simp
    have pred: "n - 1 = 2 * (m - 1) + 1" using m mpos by simp
    have "n AND (n - 1) = 2 * (m AND (m - 1))"
      unfolding pred unfolding m by (subst and_nat_rec) simp
    with less.prems have "m AND (m - 1) = 0" by simp
    moreover have "m < n" using m mpos by simp
    ultimately obtain k where "m = 2 ^ k" using less.IH mpos by blast
    then have "n = 2 ^ Suc k" using m by simp
    then show ?thesis by blast
  next
    case False
    then obtain m where m: "n = 2 * m + 1" by (elim oddE)
    have "n AND (n - 1) = 2 * m"
      unfolding m by (subst and_nat_rec) simp
    with less.prems have "m = 0" by simp
    then have "n = 2 ^ 0" using m by simp
    then show ?thesis by blast
  qed
qed

text \<open>Masking with a power of two less one is the remainder.\<close>

lemma and_mask_is_mod:
  fixes x :: nat
  shows "x AND (2 ^ k - 1) = x mod 2 ^ k"
  by (simp add: take_bit_eq_mod [symmetric] take_bit_eq_mask mask_eq_exp_minus_1)

lemma mask_is_mod:
  assumes "indices_ok q"
  shows "x AND MASK q = x mod CAP q"
proof -
  from assms have "0 < CAP q" and "CAP q AND (CAP q - 1) = 0"
    by (simp_all add: indices_ok_def)
  then obtain k where "CAP q = 2 ^ k" using and_pred_zero_is_pow2 by blast
  then show ?thesis using and_mask_is_mod [of x k] by (simp add: MASK_def)
qed

lemma mod_small_range:
  fixes a :: nat
  shows "a < 2 * c \<Longrightarrow> a mod c = (if a < c then a else a - c)"
  by (simp add: mod_if less_imp_diff_less)

section \<open>The invariant under push and pop\<close>

lemma represents_full_iff:
  assumes "represents q xs"
  shows "full q \<longleftrightarrow> length xs = CAP q - 1"
proof -
  from assms have ok: "indices_ok q" and n: "length xs < CAP q"
    and h: "head q = (tail q + length xs) mod CAP q"
    by (simp_all add: represents_def)
  from ok have t: "tail q < CAP q" and c: "2 \<le> CAP q" by (simp_all add: indices_ok_def)
  have "full q \<longleftrightarrow> (head q + 1) mod CAP q = tail q"
    by (simp add: full_def Let_def mask_is_mod [OF ok])
  also have "\<dots> \<longleftrightarrow> length xs = CAP q - 1"
    using t c n unfolding h by (auto simp: mod_small_range)
  finally show ?thesis .
qed

lemma represents_empty_iff:
  assumes "represents q xs"
  shows "empty q \<longleftrightarrow> xs = []"
proof -
  from assms have ok: "indices_ok q" and n: "length xs < CAP q"
    and h: "head q = (tail q + length xs) mod CAP q"
    by (simp_all add: represents_def)
  from ok have t: "tail q < CAP q" and c: "2 \<le> CAP q" by (simp_all add: indices_ok_def)
  have "empty q \<longleftrightarrow> length xs = 0"
    using t c n unfolding h empty_def by (auto simp: mod_small_range)
  then show ?thesis by simp
qed

lemma represents_push:
  assumes r: "represents q xs" and nf: "\<not> full q"
    and q': "q' = q\<lparr>buf := (buf q)[head q := Some x], head := (head q + 1) AND MASK q\<rparr>"
  shows "represents q' (xs @ [x])"
proof -
  let ?C = "CAP q"
  from r have ok: "indices_ok q" and n: "length xs < ?C"
    and h: "head q = (tail q + length xs) mod ?C"
    and b: "buf q = map (\<lambda>i. if offset q i < length xs then Some (xs ! offset q i) else None)
                  [0..<?C]"
    by (simp_all add: represents_def)
  from ok have t: "tail q < ?C" and c: "2 \<le> ?C" and hlt: "head q < ?C"
    by (simp_all add: indices_ok_def)
  from nf r have n': "length xs \<noteq> ?C - 1" by (simp add: represents_full_iff)
  have cap: "CAP q' = ?C" and tl': "tail q' = tail q"
    and b': "buf q' = (buf q)[head q := Some x]"
    by (simp_all add: q' CAP_def)
  have off: "offset q' i = offset q i" for i by (simp add: offset_def cap tl')
  have hd': "head q' = (head q + 1) mod ?C" by (simp add: q' mask_is_mod [OF ok])
  have ok': "indices_ok q'"
    using ok c by (simp add: indices_ok_def cap hd' tl')
  have len: "length (xs @ [x]) < ?C" using n n' by simp
  have hd'': "head q' = (tail q' + length (xs @ [x])) mod ?C"
    unfolding hd' h tl' by (simp add: mod_simps)
  have offh: "offset q (head q) = length xs"
    using t n c unfolding offset_def h by (simp add: mod_small_range)
  have offne: "offset q i \<noteq> length xs" if "i < ?C" "i \<noteq> head q" for i
    using that t n c unfolding offset_def h by (auto simp: mod_small_range split: if_splits)
  have "buf q' = map (\<lambda>i. if offset q' i < length (xs @ [x])
                             then Some ((xs @ [x]) ! offset q' i) else None) [0..<?C]"
  proof (rule nth_equalityI)
    show "length (buf q') = length (map (\<lambda>i. if offset q' i < length (xs @ [x])
                             then Some ((xs @ [x]) ! offset q' i) else None) [0..<?C])"
      by (simp add: b' CAP_def)
  next
    fix i assume "i < length (buf q')"
    then have i: "i < ?C" by (simp add: b' CAP_def)
    have old: "buf q ! i = (if offset q i < length xs then Some (xs ! offset q i) else None)"
      using i by (subst b) simp
    show "buf q' ! i = map (\<lambda>i. if offset q' i < length (xs @ [x])
                             then Some ((xs @ [x]) ! offset q' i) else None) [0..<?C] ! i"
    proof (cases "i = head q")
      case True
      then show ?thesis using i offh by (simp add: off b' CAP_def)
    next
      case False
      then show ?thesis using old i offne [OF i False]
        by (simp add: off b' nth_append less_Suc_eq)
    qed
  qed
  with ok' len hd'' show ?thesis by (simp add: represents_def cap)
qed

lemma represents_pop:
  assumes r: "represents q (x # xs)"
    and q': "q' = q\<lparr>buf := (buf q)[tail q := None], tail := (tail q + 1) AND MASK q\<rparr>"
  shows "represents q' xs" and "buf q ! tail q = Some x" and "tail q \<noteq> head q"
proof -
  let ?C = "CAP q"
  let ?ys = "x # xs"
  from r have ok: "indices_ok q" and n: "length ?ys < ?C"
    and h: "head q = (tail q + length ?ys) mod ?C"
    and b: "buf q = map (\<lambda>i. if offset q i < length ?ys then Some (?ys ! offset q i) else None)
                  [0..<?C]"
    unfolding represents_def by blast+
  from ok have t: "tail q < ?C" and c: "2 \<le> ?C" and hlt: "head q < ?C"
    by (simp_all add: indices_ok_def)
  have cap: "CAP q' = ?C" and hd': "head q' = head q"
    and b': "buf q' = (buf q)[tail q := None]"
    by (simp_all add: q' CAP_def)
  have tl': "tail q' = (tail q + 1) mod ?C" by (simp add: q' mask_is_mod [OF ok])
  have old: "buf q ! i = (if offset q i < length ?ys then Some (?ys ! offset q i) else None)"
    if "i < ?C" for i
    using that by (subst b) simp
  have off0: "offset q (tail q) = 0" using t by (simp add: offset_def)
  show "buf q ! tail q = Some x" using old [OF t] off0 by simp
  show "tail q \<noteq> head q" using t n unfolding h by (auto simp: mod_small_range)
  have ok': "indices_ok q'"
    using ok c by (simp add: indices_ok_def cap hd' tl')
  have len: "length xs < ?C" using n by simp
  have hd'': "head q' = (tail q' + length xs) mod ?C"
    unfolding hd' h tl' by (simp add: mod_simps)
  have offt: "offset q' (tail q) = ?C - 1"
    using t c unfolding offset_def cap tl' by (auto simp: mod_small_range)
  have offo: "offset q i = Suc (offset q' i)" if "i < ?C" "i \<noteq> tail q" for i
    using that t c unfolding offset_def cap tl' by (auto simp: mod_small_range)
  have "buf q' = map (\<lambda>i. if offset q' i < length xs
                             then Some (xs ! offset q' i) else None) [0..<?C]"
  proof (rule nth_equalityI)
    show "length (buf q') = length (map (\<lambda>i. if offset q' i < length xs
                             then Some (xs ! offset q' i) else None) [0..<?C])"
      by (simp add: b' CAP_def)
  next
    fix i assume "i < length (buf q')"
    then have i: "i < ?C" by (simp add: b' CAP_def)
    show "buf q' ! i = map (\<lambda>i. if offset q' i < length xs
                             then Some (xs ! offset q' i) else None) [0..<?C] ! i"
    proof (cases "i = tail q")
      case True
      then show ?thesis using i offt n by (simp add: b' CAP_def)
    next
      case False
      then show ?thesis using old [OF i] i offo [OF i False]
        by (simp add: b')
    qed
  qed
  with ok' len hd'' show "represents q' xs" by (simp add: represents_def cap)
qed

text \<open>The constructor accepts exactly the powers of two from two on.\<close>

lemma SPSCQueue_pow2:
  assumes "0 < k"
  shows "SPSCQueue (2 ^ k) = Some \<lparr>buf = replicate (2 ^ k) None, head = 0, tail = 0\<rparr>"
proof -
  have "(2::nat) ^ k AND (2 ^ k - 1) = 0" by (simp only: and_mask_is_mod) simp
  moreover have "(2::nat) \<le> 2 ^ k" using assms by (cases k) simp_all
  ultimately show ?thesis unfolding SPSCQueue_def by simp 
qed

lemma SPSCQueue_accepts_iff:
  "(\<exists>q :: 'a queue. SPSCQueue C = Some q) \<longleftrightarrow> (\<exists>k. 0 < k \<and> C = 2 ^ k)"
proof
  assume "\<exists>q :: 'a queue. SPSCQueue C = Some q"
  then have c: "2 \<le> C" "C AND (C - 1) = 0"
    by (auto simp: SPSCQueue_def split: if_splits)
  then obtain k where k: "C = 2 ^ k" using and_pred_zero_is_pow2 [of C] by auto
  with c(1) have "0 < k" by (cases k) simp_all
  with k show "\<exists>k. 0 < k \<and> C = 2 ^ k" by blast
next
  assume "\<exists>k. 0 < k \<and> C = 2 ^ k"
  then show "\<exists>q :: 'a queue. SPSCQueue C = Some q" using SPSCQueue_pow2 by blast
qed

text \<open>A newly constructed queue holds nothing.\<close>

lemma represents_init:
  assumes "SPSCQueue C = Some q"
  shows "represents q []"
proof -
  from assms have c: "2 \<le> C" "C AND (C - 1) = 0"
    and q: "q = \<lparr>buf = replicate C None, head = 0, tail = 0\<rparr>"
    by (auto simp: SPSCQueue_def split: if_splits)
  have "replicate C None = map (\<lambda>i. None) [0..<C]"
    by (simp add: map_replicate_const)
  with c show ?thesis by (simp add: represents_def indices_ok_def CAP_def q)
qed

text \<open>What the calls do on a queue that holds \<open>xs\<close>.\<close>

lemma try_push_represents:
  assumes r: "represents q xs"
  shows "try_push c v q =
           (if length xs = CAP q - 1 then (Returned False, q)
            else case c v of
                   Inl e \<Rightarrow> (Raised e, q)
                 | Inr x \<Rightarrow> (Returned True,
                     q\<lparr>buf := (buf q)[head q := Some x], head := (head q + 1) AND MASK q\<rparr>))"
proof -
  from r have "head q < CAP q" by (simp add: represents_def indices_ok_def)
  moreover have "full q \<longleftrightarrow> length xs = CAP q - 1" using r by (rule represents_full_iff)
  ultimately show ?thesis by (simp add: try_push_def full_def Let_def split: sum.split)
qed

lemma try_pop_represents_Nil:
  assumes r: "represents q []"
  shows "try_pop q out = (Returned False, q, out)"
  using represents_empty_iff [OF r] by (simp add: try_pop_def empty_def)

lemma try_pop_represents_Cons:
  assumes r: "represents q (x # xs)"
  shows "try_pop q out =
           (Returned True, q\<lparr>buf := (buf q)[tail q := None], tail := (tail q + 1) AND MASK q\<rparr>, x)"
proof -
  from r have "tail q < CAP q" by (simp add: represents_def indices_ok_def)
  moreover note represents_pop(2,3) [OF r refl]
  ultimately show ?thesis by (simp add: try_pop_def Let_def)
qed

text \<open>
  A run from a queue that holds \<open>xs\<close> ends in a queue that holds some \<open>ys\<close>; none of
  its calls has undefined behaviour; and the elements held at the start followed by
  those the successful pushes built are the popped values followed by \<open>ys\<close>.
\<close>

lemma run_represents:
  assumes "represents q xs" and "run c cs q out = (tr, qf, outf)"
  shows "\<exists>ys st. represents qf ys \<and> defined tr \<and> map c (pushed tr) = map Inr st \<and>
                 xs @ st = popped tr @ ys"
  using assms
proof (induction cs arbitrary: q out xs tr)
  case Nil
  then show ?case by (auto simp: defined_def)
next
  case (Cons a cs)
  show ?case
  proof (cases a)
    case (Push v)
    show ?thesis
    proof (cases "length xs = CAP q - 1")
      case True
      with Cons.prems Push obtain tr' where tr: "tr = (Push v, Returned False, out) # tr'"
        and run: "run c cs q out = (tr', qf, outf)"
        by (auto simp: try_push_represents split: prod.splits)
      from Cons.IH [OF Cons.prems(1) run] show ?thesis
        by (auto simp: tr defined_def)
    next
      case nf: False
      show ?thesis
      proof (cases "c v")
        case (Inl e)
        with Cons.prems Push nf obtain tr' where tr: "tr = (Push v, Raised e, out) # tr'"
          and run: "run c cs q out = (tr', qf, outf)"
          by (auto simp: try_push_represents split: prod.splits)
        from Cons.IH [OF Cons.prems(1) run] show ?thesis
          by (auto simp: tr defined_def)
      next
        case (Inr x)
        define q' where "q' = q\<lparr>buf := (buf q)[head q := Some x], head := (head q + 1) AND MASK q\<rparr>"
        from Cons.prems Push nf Inr obtain tr' where tr: "tr = (Push v, Returned True, out) # tr'"
          and run: "run c cs q' out = (tr', qf, outf)"
          by (auto simp: try_push_represents q'_def split: prod.splits)
        have "\<not> full q" using nf represents_full_iff [OF Cons.prems(1)] by simp
        then have "represents q' (xs @ [x])"
          using Cons.prems(1) q'_def by (intro represents_push)
        from Cons.IH [OF this run] obtain ys st where
          "represents qf ys" "defined tr'" "map c (pushed tr') = map Inr st"
          "(xs @ [x]) @ st = popped tr' @ ys" by blast
        then have "represents qf ys \<and> defined tr \<and> map c (pushed tr) = map Inr (x # st) \<and>
                 xs @ (x # st) = popped tr @ ys"
          using Inr by (simp add: tr defined_def)
        then show ?thesis by blast
      qed
    qed
  next
    case Pop
    show ?thesis
    proof (cases xs)
      case Nil
      with Cons.prems Pop obtain tr' where tr: "tr = (Pop, Returned False, out) # tr'"
        and run: "run c cs q out = (tr', qf, outf)"
        by (auto simp: try_pop_represents_Nil split: prod.splits)
      from Cons.IH [OF Cons.prems(1) run] show ?thesis
        by (auto simp: tr defined_def)
    next
      case (Cons x xs')
      define q' where "q' = q\<lparr>buf := (buf q)[tail q := None], tail := (tail q + 1) AND MASK q\<rparr>"
      from Cons.prems Pop Cons obtain tr' where tr: "tr = (Pop, Returned True, x) # tr'"
        and run: "run c cs q' x = (tr', qf, outf)"
        by (auto simp: try_pop_represents_Cons q'_def split: prod.splits)
      have "represents q' xs'"
        using Cons.prems(1) q'_def unfolding Cons by (rule represents_pop(1))
      from Cons.IH [OF this run] obtain ys st where
        "represents qf ys" "defined tr'" "map c (pushed tr') = map Inr st"
        "xs' @ st = popped tr' @ ys" by blast
      then have "represents qf ys \<and> defined tr \<and> map c (pushed tr) = map Inr st \<and>
                 xs @ st = popped tr @ ys"
        by (simp add: tr defined_def Cons)
      then show ?thesis by blast
    qed
  qed
qed


section \<open>Runs of pushes and of pops\<close>

text \<open>
  Pushes that fit all succeed, and as many pops as the queue holds elements return
  them in order and leave it holding nothing.
\<close>

lemma run_pushes:
  assumes "represents q xs" and "length xs + length vs < CAP q"
  shows "\<exists>q'. run Inr (map Push vs) q out =
                 (map (\<lambda>v. (Push v, Returned True :: ('e, bool) outcome, out)) vs, q', out) \<and>
              represents q' (xs @ vs) \<and> CAP q' = CAP q"
  using assms
proof (induction vs arbitrary: q xs)
  case Nil
  then show ?case by simp
next
  case (Cons v vs)
  let ?c = "Inr :: 'a \<Rightarrow> 'e + 'a"
  define q1 where "q1 = q\<lparr>buf := (buf q)[head q := Some v], head := (head q + 1) AND MASK q\<rparr>"
  from Cons.prems have nf: "length xs \<noteq> CAP q - 1" by simp
  then have "\<not> full q" using represents_full_iff [OF Cons.prems(1)] by simp
  then have r1: "represents q1 (xs @ [v])"
    using Cons.prems(1) q1_def by (intro represents_push)
  have c1: "CAP q1 = CAP q" by (simp add: q1_def CAP_def)
  have push: "try_push ?c v q = (Returned True, q1)"
    using nf by (simp add: try_push_represents [OF Cons.prems(1)] q1_def)
  from Cons.prems(2) have "length (xs @ [v]) + length vs < CAP q1" by (simp add: c1)
  from Cons.IH [OF r1 this] obtain q' where
    "run ?c (map Push vs) q1 out = (map (\<lambda>v. (Push v, Returned True, out)) vs, q', out)"
    "represents q' ((xs @ [v]) @ vs)" "CAP q' = CAP q1" by blast
  then have "run ?c (map Push (v # vs)) q out =
               (map (\<lambda>v. (Push v, Returned True, out)) (v # vs), q', out) \<and>
             represents q' (xs @ v # vs) \<and> CAP q' = CAP q"
    by (simp add: push c1)
  then show ?case by blast
qed

lemma run_pops:
  assumes "represents q xs"
  shows "\<exists>q'. run c (replicate (length xs) Pop) q out =
                 (map (\<lambda>x. (Pop, Returned True, x)) xs, q', last (out # xs)) \<and>
              represents q' []"
  using assms
proof (induction xs arbitrary: q out)
  case Nil
  then show ?case by simp
next
  case (Cons x xs)
  define q1 where "q1 = q\<lparr>buf := (buf q)[tail q := None], tail := (tail q + 1) AND MASK q\<rparr>"
  have r1: "represents q1 xs" using Cons.prems q1_def by (rule represents_pop(1))
  have pop: "try_pop q out = (Returned True, q1, x)"
    by (simp add: try_pop_represents_Cons [OF Cons.prems] q1_def)
  from Cons.IH [OF r1, of x] obtain q' where
    "run c (replicate (length xs) Pop) q1 x =
       (map (\<lambda>x. (Pop, Returned True, x)) xs, q', last (x # xs))"
    "represents q' []" by blast
  then have "run c (replicate (length (x # xs)) Pop) q out =
                 (map (\<lambda>x. (Pop, Returned True, x)) (x # xs), q', last (out # x # xs)) \<and>
              represents q' []"
    by (simp add: pop)
  then show ?case by blast
qed

section \<open>Slots and offsets\<close>

lemma represents_count:
  assumes "represents q xs"
  shows "offset q (head q) = length xs"
proof -
  from assms have "tail q < CAP q" "length xs < CAP q" "head q = (tail q + length xs) mod CAP q"
    by (simp_all add: represents_def indices_ok_def)
  then show ?thesis unfolding offset_def by (auto simp: mod_small_range)
qed

lemma offset_of_slot:
  assumes "tail q < CAP q" and "k < CAP q"
  shows "offset q ((tail q + k) mod CAP q) = k"
  using assms unfolding offset_def by (auto simp: mod_small_range)

lemma slot_of_offset:
  assumes "tail q < CAP q" and "i < CAP q"
  shows "(tail q + offset q i) mod CAP q = i"
  using assms unfolding offset_def by (auto simp: mod_small_range)

lemma represents_slot:
  assumes "represents q xs" and "i < CAP q"
  shows "buf q ! i = (if offset q i < length xs then Some (xs ! offset q i) else None)"
proof -
  from assms(1) have "buf q = map (\<lambda>i. if offset q i < length xs then Some (xs ! offset q i)
                                       else None) [0..<CAP q]"
    by (simp add: represents_def)
  then show ?thesis using assms(2) by (elim ssubst) simp
qed

text \<open>
  The live elements sit at the slots \<open>tail\<close>, \<open>tail + 1\<close>, ... taken modulo the
  capacity; these slots are pairwise different, and no other slot is live.
\<close>

lemma live_slots:
  assumes r: "represents q xs"
  shows "map (\<lambda>k. buf q ! ((tail q + k) mod CAP q)) [0..<length xs] = map Some xs"
    and "inj_on (\<lambda>k. (tail q + k) mod CAP q) {0..<length xs}"
    and "(\<lambda>k. (tail q + k) mod CAP q) ` {0..<length xs} = {i. i < CAP q \<and> buf q ! i \<noteq> None}"
proof -
  let ?C = "CAP q" and ?n = "length xs"
  let ?f = "\<lambda>k. (tail q + k) mod ?C"
  from r have t: "tail q < ?C" and n: "?n < ?C" by (simp_all add: represents_def indices_ok_def)
  have lt: "?f k < ?C" for k using t by simp
  have off: "offset q (?f k) = k" if "k < ?n" for k
    using that n by (intro offset_of_slot [OF t]) simp
  have slot: "buf q ! ?f k = Some (xs ! k)" if "k < ?n" for k
    using that by (simp add: represents_slot [OF r lt] off)
  show "map (\<lambda>k. buf q ! ?f k) [0..<?n] = map Some xs"
    by (rule nth_equalityI) (simp_all add: slot)
  show "inj_on ?f {0..<?n}"
    by (rule inj_on_inverseI [where g = "offset q"]) (simp add: off)
  show "?f ` {0..<?n} = {i. i < ?C \<and> buf q ! i \<noteq> None}"
  proof (intro set_eqI iffI)
    fix i assume "i \<in> ?f ` {0..<?n}"
    then obtain k where "k < ?n" "i = ?f k" by auto
    then show "i \<in> {i. i < ?C \<and> buf q ! i \<noteq> None}" using lt slot by simp
  next
    fix i assume "i \<in> {i. i < ?C \<and> buf q ! i \<noteq> None}"
    then have i: "i < ?C" and "buf q ! i \<noteq> None" by simp_all
    then have "offset q i < ?n" by (simp add: represents_slot [OF r] split: if_splits)
    moreover have "?f (offset q i) = i" using t i by (rule slot_of_offset)
    ultimately show "i \<in> ?f ` {0..<?n}" by (metis atLeastLessThan_iff imageI le0) 
  qed
qed

section \<open>The loop of clear\<close>

lemma clear_loop_represents:
  assumes "represents \<lparr>buf = b, head = h, tail = t\<rparr> xs"
  shows "clear_loop (length b - 1) h t b ds =
           Some (ds @ map (\<lambda>k. ((t + k) mod length b, xs ! k)) [0..<length xs], h,
                 replicate (length b) None)"
  using assms
proof (induction xs arbitrary: t b ds)
  case Nil
  let ?q = "\<lparr>buf = b, head = h, tail = t\<rparr>"
  from Nil have "empty ?q" by (simp add: represents_empty_iff)
  then have th: "t = h" by (simp add: empty_def)
  from Nil have "b = map (\<lambda>i. None) [0..<length b]" by (simp add: represents_def CAP_def)
  then have "b = replicate (length b) None" by (simp add: map_replicate_const)
  with th show ?case by simp
next
  case (Cons x xs)
  let ?q = "\<lparr>buf = b, head = h, tail = t\<rparr>"
  define t' where "t' = (t + 1) AND (length b - 1)"
  define q' where "q' = ?q\<lparr>buf := (buf ?q)[tail ?q := None], tail := (tail ?q + 1) AND MASK ?q\<rparr>"
  have q': "q' = \<lparr>buf = b[t := None], head = h, tail = t'\<rparr>"
    by (simp add: q'_def t'_def MASK_def CAP_def)
  from Cons.prems have ok: "indices_ok ?q" by (simp add: represents_def)
  then have tlt: "t < length b" by (simp add: indices_ok_def CAP_def)
  have t'': "t' = (t + 1) mod length b"
    using mask_is_mod [OF ok, of "t + 1"] by (simp add: t'_def MASK_def CAP_def)
  have r': "represents \<lparr>buf = b[t := None], head = h, tail = t'\<rparr> xs"
    using represents_pop(1) [OF Cons.prems q'_def] by (simp add: q')
  have slot: "b ! t = Some x" and ne: "t \<noteq> h"
    using represents_pop(2,3) [OF Cons.prems q'_def] by simp_all
  have shift: "map (\<lambda>k. ((t + k) mod length b, (x # xs) ! k)) [0..<length (x # xs)] =
               (t, x) # map (\<lambda>k. ((t' + k) mod length b, xs ! k)) [0..<length xs]"
    using tlt by (simp add: upt_conv_Cons map_Suc_upt [symmetric] t'' mod_simps del: upt_Suc)
  have "clear_loop (length b - 1) h t b ds =
          clear_loop (length b - 1) h t' (b[t := None]) (ds @ [(t, x)])"
    using ne tlt slot by (subst clear_loop.simps) (simp add: t'_def)
  also have "\<dots> = Some ((ds @ [(t, x)]) @ map (\<lambda>k. ((t' + k) mod length b, xs ! k)) [0..<length xs],
                       h, replicate (length b) None)"
    using Cons.IH [OF r', of "ds @ [(t, x)]"] by simp
  finally show ?case unfolding shift by simp
qed

lemma clear_represents:
  assumes r: "represents q xs"
  shows "clear q =
           (Returned (map (\<lambda>k. ((tail q + k) mod CAP q, xs ! k)) [0..<length xs]),
            q\<lparr>buf := replicate (CAP q) None, tail := head q\<rparr>)"
proof -
  have eta: "\<lparr>buf = buf q, head = head q, tail = tail q\<rparr> = q" by (cases q) simp
  have "represents \<lparr>buf = buf q, head = head q, tail = tail q\<rparr> xs"
    using r by (simp only: eta)
  from clear_loop_represents [OF this, of "[]"] show ?thesis
    by (simp add: clear_def MASK_def CAP_def)
qed

section \<open>The claims\<close>

text \<open>
  C1. Whatever calls of \<^verbatim>\<open>try_push\<close> and \<^verbatim>\<open>try_pop\<close> one thread makes on a newly
  constructed queue, with a copy constructor that copies exactly and does not throw:
  no call has undefined behaviour, the values the successful pops return are the values
  given to the successful pushes, in the same order, and the pushed values not yet
  popped are the elements the queue holds at the end.
\<close>

theorem fifo_order:
  fixes tr :: "('a call \<times> ('e, bool) outcome \<times> 'a) list"
  assumes "SPSCQueue C = Some q0" and "run Inr cs q0 out = (tr, q, out')"
  shows "defined tr \<and> popped tr = take (length (popped tr)) (pushed tr) \<and>
         (\<exists>ys. represents q ys \<and> pushed tr = popped tr @ ys)"
proof -
  from assms(1) have "represents q0 []" by (rule represents_init)
  from run_represents [OF this assms(2)] obtain ys st where
    r: "represents q ys" and d: "defined tr" and "map (Inr :: 'a \<Rightarrow> 'e + 'a) (pushed tr) = map Inr st"
    and "[] @ st = popped tr @ ys" by blast
  then have eq: "pushed tr = popped tr @ ys" by (simp add: inj_map_eq_map)
  then have "popped tr = take (length (popped tr)) (pushed tr)" by simp
  with r d eq show ?thesis by blast
qed

theorem fifo_order_witness:
  "SPSCQueue 4 = Some \<lparr>buf = [None, None, None, None :: nat option], head = 0, tail = 0\<rparr> \<and>
   run (Inr :: nat \<Rightarrow> unit + nat) [Push 1, Push 2, Pop, Push 3, Pop, Pop, Pop]
     \<lparr>buf = [None, None, None, None], head = 0, tail = 0\<rparr> 0 =
     ([(Push 1, Returned True, 0), (Push 2, Returned True, 0), (Pop, Returned True, 1),
       (Push 3, Returned True, 1), (Pop, Returned True, 2), (Pop, Returned True, 3),
       (Pop, Returned False, 3)],
      \<lparr>buf = [None, None, None, None], head = 3, tail = 3\<rparr>, 3) \<and>
   popped ([(Push 1, Returned True, 0), (Push 2, Returned True, 0), (Pop, Returned True, 1),
       (Push 3, Returned True, 1), (Pop, Returned True, 2), (Pop, Returned True, 3),
       (Pop, Returned False, 3)] :: (nat call \<times> (unit, bool) outcome \<times> nat) list) =
     [1, 2, 3]"
proof -
  let ?init = "\<lparr>buf = [None, None, None, None], head = 0, tail = 0\<rparr> :: nat queue"
  let ?tr = "[(Push 1, Returned True, 0), (Push 2, Returned True, 0), (Pop, Returned True, 1),
       (Push 3, Returned True, 1), (Pop, Returned True, 2), (Pop, Returned True, 3),
       (Pop, Returned False, 3)] :: (nat call \<times> (unit, bool) outcome \<times> nat) list"
  have a: "SPSCQueue 4 = Some ?init" by code_simp
  have b: "run Inr [Push 1, Push 2, Pop, Push 3, Pop, Pop, Pop] ?init (0::nat) =
             (?tr, \<lparr>buf = [None, None, None, None], head = 3, tail = 3\<rparr>, 3)"
    by code_simp
  have c: "pushed ?tr = [1, 2, 3]" by simp
  from fifo_order [OF a b] have "popped ?tr = take (length (popped ?tr)) (pushed ?tr)" by blast
  then have "popped ?tr = [1, 2, 3]" unfolding c by simp
  with a b show ?thesis by blast
qed

text \<open>
  C2. For every power of two \<open>C\<close> from two on, the constructor gives a queue, and on
  it, with no pop made: \<open>C - 1\<close> calls of \<^verbatim>\<open>try_push\<close> all return true; the next
  \<^verbatim>\<open>try_push\<close> returns false and leaves the queue as it is, and \<^verbatim>\<open>full()\<close> is true
  there; then \<open>C - 1\<close> calls of \<^verbatim>\<open>try_pop\<close> all return true, giving back the pushed
  values in order, and \<^verbatim>\<open>empty()\<close> is true after them.
\<close>

theorem full_empty_boundary:
  assumes "0 < k" and "C = 2 ^ k" and "length vs = C - 1"
  shows "\<exists>q0 q1 q2.
           SPSCQueue C = Some q0 \<and>
           run Inr (map Push vs) q0 out =
             (map (\<lambda>v. (Push v, Returned True :: ('e, bool) outcome, out)) vs, q1, out) \<and>
           try_push Inr w q1 = (Returned False :: ('e, bool) outcome, q1) \<and> full q1 \<and>
           run Inr (replicate (C - 1) Pop) q1 out =
             (map (\<lambda>v. (Pop, Returned True :: ('e, bool) outcome, v)) vs, q2, last (out # vs)) \<and>
           empty q2"
proof -
  let ?c = "Inr :: 'a \<Rightarrow> 'e + 'a"
  from assms(1,2) obtain q0 :: "'a queue" where q0: "SPSCQueue C = Some q0"
    using SPSCQueue_pow2 by blast
  then have r0: "represents q0 []" by (rule represents_init)
  from q0 have c: "CAP q0 = C" "2 \<le> C"
    by (auto simp: SPSCQueue_def CAP_def split: if_splits)
  with assms(3) have "length ([] :: 'a list) + length vs < CAP q0" by simp
  from run_pushes [OF r0 this, of out] obtain q1 where
    pushes: "run ?c (map Push vs) q0 out = (map (\<lambda>v. (Push v, Returned True, out)) vs, q1, out)"
    and r1: "represents q1 vs" and c1: "CAP q1 = C" using c by auto
  from r1 c1 assms(3) have f: "full q1" by (simp add: represents_full_iff)
  then have push: "try_push ?c w q1 = (Returned False, q1)"
    by (simp add: try_push_def full_def Let_def)
  from run_pops [OF r1, of ?c out] obtain q2 where
    pops: "run ?c (replicate (C - 1) Pop) q1 out =
             (map (\<lambda>v. (Pop, Returned True, v)) vs, q2, last (out # vs))"
    and r2: "represents q2 []" using assms(3) by auto
  from r2 have "empty q2" by (simp add: represents_empty_iff)
  with q0 pushes push f pops show ?thesis by blast
qed

theorem full_empty_boundary_witness:
  "(0::nat) < 2 \<and> (4::nat) = 2 ^ 2 \<and> length [5, 6, 7 :: nat] = 4 - 1 \<and>
   SPSCQueue 4 = Some \<lparr>buf = [None, None, None, None :: nat option], head = 0, tail = 0\<rparr> \<and>
   run (Inr :: nat \<Rightarrow> unit + nat) [Push 5, Push 6, Push 7]
       \<lparr>buf = [None, None, None, None], head = 0, tail = 0\<rparr> 0 =
     ([(Push 5, Returned True, 0), (Push 6, Returned True, 0), (Push 7, Returned True, 0)],
      \<lparr>buf = [Some 5, Some 6, Some 7, None], head = 3, tail = 0\<rparr>, 0) \<and>
   try_push (Inr :: nat \<Rightarrow> unit + nat) 8 \<lparr>buf = [Some 5, Some 6, Some 7, None], head = 3, tail = 0\<rparr> =
     (Returned False, \<lparr>buf = [Some 5, Some 6, Some 7, None], head = 3, tail = 0\<rparr>) \<and>
   full \<lparr>buf = [Some 5, Some 6, Some (7::nat), None], head = 3, tail = 0\<rparr> \<and>
   run (Inr :: nat \<Rightarrow> unit + nat) [Pop, Pop, Pop]
       \<lparr>buf = [Some 5, Some 6, Some 7, None], head = 3, tail = 0\<rparr> 0 =
     ([(Pop, Returned True, 5), (Pop, Returned True, 6), (Pop, Returned True, 7)],
      \<lparr>buf = [None, None, None, None], head = 3, tail = 3\<rparr>, 7) \<and>
   empty \<lparr>buf = [None, None, None, None :: nat option], head = 3, tail = 3\<rparr>"
proof -
  let ?init = "\<lparr>buf = [None, None, None, None], head = 0, tail = 0\<rparr> :: nat queue"
  let ?q1 = "\<lparr>buf = [Some 5, Some 6, Some 7, None], head = 3, tail = 0\<rparr> :: nat queue"
  let ?q2 = "\<lparr>buf = [None, None, None, None], head = 3, tail = 3\<rparr> :: nat queue"
  let ?c = "Inr :: nat \<Rightarrow> unit + nat"
  have k: "(0::nat) < 2" and c: "(4::nat) = 2 ^ 2" by simp_all
  have a: "SPSCQueue 4 = Some ?init" by code_simp
  have b: "length [5, 6, 7 :: nat] = 4 - 1" by simp
  have r1: "run ?c [Push 5, Push 6, Push 7] ?init 0 =
     ([(Push 5, Returned True, 0), (Push 6, Returned True, 0), (Push 7, Returned True, 0)], ?q1, 0)"
    by code_simp
  have r2: "run ?c [Pop, Pop, Pop] ?q1 0 =
     ([(Pop, Returned True, 5), (Pop, Returned True, 6), (Pop, Returned True, 7)], ?q2, 7)"
    by code_simp
  from full_empty_boundary [OF k c b, of 0 8] obtain q0 q1 q2 where
    "SPSCQueue 4 = Some q0"
    "run ?c (map Push [5, 6, 7]) q0 0 =
       (map (\<lambda>v. (Push v, Returned True, 0)) [5, 6, 7], q1, 0)"
    and p: "try_push ?c 8 q1 = (Returned False, q1)" and f: "full q1"
    and "run ?c (replicate (4 - 1) Pop) q1 0 =
           (map (\<lambda>v. (Pop, Returned True, v)) [5, 6, 7], q2, last [0, 5, 6, 7])"
    and e: "empty q2"
    by blast
  then have "q1 = ?q1" and "q2 = ?q2" using a r1 r2 by (simp_all add: numeral_3_eq_3)
  with k c b a r1 r2 p f e show ?thesis by blast
qed

text \<open>
  C3. In every queue state \<^verbatim>\<open>try_push\<close> returns false exactly when the queue is
  full, and then it returns the queue as it was; \<^verbatim>\<open>try_pop\<close> returns false exactly
  when the queue is empty, and then it returns the queue and the out-parameter as they
  were. Both are return values: the call neither throws nor has undefined behaviour.
\<close>

theorem full_and_empty_are_return_values:
  "(fst (try_push copy_ctor v q) = Returned False \<longleftrightarrow> full q) \<and>
   (try_push copy_ctor v q = (Returned False, q) \<longleftrightarrow> full q) \<and>
   (fst (try_pop q out :: ('e, bool) outcome \<times> 'a queue \<times> 'a) = Returned False \<longleftrightarrow> empty q) \<and>
   ((try_pop q out :: ('e, bool) outcome \<times> 'a queue \<times> 'a) = (Returned False, q, out) \<longleftrightarrow> empty q)"
  by (auto simp: try_push_def try_pop_def full_def empty_def Let_def split: sum.splits option.splits)

text \<open>
  C5. In every state that calls of \<^verbatim>\<open>try_push\<close> and \<^verbatim>\<open>try_pop\<close> on one thread
  reach from a newly constructed queue, \<^verbatim>\<open>clear()\<close> returns, and so does the
  destructor, which does the same. The destructor calls it makes are at the slots
  \<open>tail\<close>, \<open>tail + 1\<close>, ... modulo the capacity, as many as there are slots from
  \<^verbatim>\<open>tail_\<close> up to \<^verbatim>\<open>head_\<close>, in this order; each destroys the live element of its
  slot; no slot is destroyed twice; the slots destroyed are exactly the slots that were
  live. Afterwards no slot is live, \<^verbatim>\<open>head_\<close> is unchanged, \<^verbatim>\<open>tail_\<close> equals it, and
  the queue is empty.
\<close>

theorem clear_drains:
  assumes "SPSCQueue C = Some q0" and "run copy_ctor cs q0 out = (tr, q, out')"
  shows "\<exists>ds q'. clear q = (Returned ds, q') \<and> destructor q = (Returned ds, q') \<and>
           map fst ds = map (\<lambda>k. (tail q + k) mod CAP q) [0..<offset q (head q)] \<and>
           map (\<lambda>i. buf q ! i) (map fst ds) = map Some (map snd ds) \<and>
           distinct (map fst ds) \<and>
           set (map fst ds) = {i. i < CAP q \<and> buf q ! i \<noteq> None} \<and>
           buf q' = replicate (CAP q) None \<and> head q' = head q \<and> tail q' = head q \<and>
           empty q'"
proof -
  from assms(1) have "represents q0 []" by (rule represents_init)
  from run_represents [OF this assms(2)] obtain xs where r: "represents q xs" by blast
  let ?f = "\<lambda>k. (tail q + k) mod CAP q"
  define ds where "ds = map (\<lambda>k. (?f k, xs ! k)) [0..<length xs]"
  define q' where "q' = q\<lparr>buf := replicate (CAP q) None, tail := head q\<rparr>"
  have idx: "map fst ds = map ?f [0..<length xs]" by (simp add: ds_def comp_def)
  have elems: "map snd ds = xs" by (simp add: ds_def comp_def map_nth)
  have c: "clear q = (Returned ds, q')"
    unfolding ds_def q'_def by (rule clear_represents [OF r])
  then have d: "destructor q = (Returned ds, q')" by (simp add: destructor_def)
  have 1: "map fst ds = map ?f [0..<offset q (head q)]"
    by (simp add: idx represents_count [OF r])
  have 2: "map (\<lambda>i. buf q ! i) (map fst ds) = map Some (map snd ds)"
    using live_slots(1) [OF r] by (simp add: idx elems comp_def)
  have 3: "distinct (map fst ds)"
    using live_slots(2) [OF r] by (simp add: idx distinct_map)
  have 4: "set (map fst ds) = {i. i < CAP q \<and> buf q ! i \<noteq> None}"
    using live_slots(3) [OF r] by (simp add: idx)
  have 5: "buf q' = replicate (CAP q) None" "head q' = head q" "tail q' = head q" "empty q'"
    by (simp_all add: q'_def empty_def)
  from c d 1 2 3 4 5 show ?thesis by blast
qed

theorem clear_drains_witness:
  "SPSCQueue 4 = Some \<lparr>buf = [None, None, None, None :: nat option], head = 0, tail = 0\<rparr> \<and>
   run (Inr :: nat \<Rightarrow> unit + nat) [Push 1, Push 2, Push 3, Pop, Pop, Push 4, Push 5]
       \<lparr>buf = [None, None, None, None], head = 0, tail = 0\<rparr> 0 =
     ([(Push 1, Returned True, 0), (Push 2, Returned True, 0), (Push 3, Returned True, 0),
       (Pop, Returned True, 1), (Pop, Returned True, 2), (Push 4, Returned True, 2),
       (Push 5, Returned True, 2)],
      \<lparr>buf = [Some 5, None, Some 3, Some 4], head = 1, tail = 2\<rparr>, 2) \<and>
   clear \<lparr>buf = [Some 5, None, Some 3, Some (4::nat)], head = 1, tail = 2\<rparr> =
     (Returned [(2, 3), (3, 4), (0, 5)] :: (unit, (nat \<times> nat) list) outcome,
      \<lparr>buf = [None, None, None, None], head = 1, tail = 1\<rparr>) \<and>
   destructor \<lparr>buf = [Some 5, None, Some 3, Some (4::nat)], head = 1, tail = 2\<rparr> =
     (Returned [(2, 3), (3, 4), (0, 5)] :: (unit, (nat \<times> nat) list) outcome,
      \<lparr>buf = [None, None, None, None], head = 1, tail = 1\<rparr>) \<and>
   empty \<lparr>buf = [None, None, None, None :: nat option], head = 1, tail = 1\<rparr>"
proof -
  let ?init = "\<lparr>buf = [None, None, None, None], head = 0, tail = 0\<rparr> :: nat queue"
  let ?q = "\<lparr>buf = [Some 5, None, Some 3, Some 4], head = 1, tail = 2\<rparr> :: nat queue"
  let ?q' = "\<lparr>buf = [None, None, None, None], head = 1, tail = 1\<rparr> :: nat queue"
  let ?ds = "Returned [(2, 3), (3, 4), (0, 5)] :: (unit, (nat \<times> nat) list) outcome"
  have a: "SPSCQueue 4 = Some ?init" by code_simp
  have b: "run (Inr :: nat \<Rightarrow> unit + nat) [Push 1, Push 2, Push 3, Pop, Pop, Push 4, Push 5] ?init 0 =
     ([(Push 1, Returned True, 0), (Push 2, Returned True, 0), (Push 3, Returned True, 0),
       (Pop, Returned True, 1), (Pop, Returned True, 2), (Push 4, Returned True, 2),
       (Push 5, Returned True, 2)], ?q, 2)"
    by code_simp
  have c: "clear ?q = (?ds, ?q')" by code_simp
  from clear_drains [OF a b] obtain ds q' where
    "clear ?q = (Returned ds :: (unit, (nat \<times> nat) list) outcome, q')"
    "destructor ?q = (Returned ds :: (unit, (nat \<times> nat) list) outcome, q')" "empty q'"
    by blast
  with c have "destructor ?q = (?ds, ?q')" "empty ?q'" by simp_all
  with a b c show ?thesis by blast
qed

text \<open>
  C6. On a queue that is not full and whose head index is a slot of the buffer, when
  the constructor run by \<^verbatim>\<open>try_push\<close> (by copy or by move) or by
  \<^verbatim>\<open>try_emplace\<close> throws, the exception leaves the call and the queue is as before
  the call: the head index is not advanced and no slot has changed.
\<close>

theorem failed_construction_leaves_queue:
  assumes "\<not> full q" and "head q < CAP q"
  shows "(copy_ctor v = Inl e \<longrightarrow> try_push copy_ctor v q = (Raised e, q)) \<and>
         (move_ctor v = Inl e \<longrightarrow> try_push_move move_ctor v q = (Raised e, q)) \<and>
         (ctor args = Inl e \<longrightarrow> try_emplace ctor args q = (Raised e, q))"
  using assms by (simp add: try_push_def try_push_move_def try_emplace_def full_def Let_def)

theorem failed_construction_leaves_queue_witness:
  "\<not> full \<lparr>buf = [None, Some (4::nat), None, None], head = 2, tail = 1\<rparr> \<and>
   head \<lparr>buf = [None, Some (4::nat), None, None], head = 2, tail = 1\<rparr>
     < CAP \<lparr>buf = [None, Some (4::nat), None, None], head = 2, tail = 1\<rparr> \<and>
   try_push (\<lambda>v. if v = 0 then Inl ''zero'' else Inr v) 0
       \<lparr>buf = [None, Some (4::nat), None, None], head = 2, tail = 1\<rparr> =
     (Raised ''zero'', \<lparr>buf = [None, Some 4, None, None], head = 2, tail = 1\<rparr>) \<and>
   try_push_move (\<lambda>v. if v = 0 then Inl ''zero'' else Inr v) 0
       \<lparr>buf = [None, Some (4::nat), None, None], head = 2, tail = 1\<rparr> =
     (Raised ''zero'', \<lparr>buf = [None, Some 4, None, None], head = 2, tail = 1\<rparr>) \<and>
   try_emplace (\<lambda>v. if v = 0 then Inl ''zero'' else Inr v) (0::nat)
       \<lparr>buf = [None, Some (4::nat), None, None], head = 2, tail = 1\<rparr> =
     (Raised ''zero'', \<lparr>buf = [None, Some 4, None, None], head = 2, tail = 1\<rparr>)"
proof -
  let ?q = "\<lparr>buf = [None, Some (4::nat), None, None], head = 2, tail = 1\<rparr>"
  let ?c = "\<lambda>v::nat. if v = 0 then Inl ''zero'' else Inr v"
  have a: "\<not> full ?q" by code_simp
  have b: "head ?q < CAP ?q" by (simp add: CAP_def)
  have c: "?c 0 = Inl ''zero''" by simp
  from failed_construction_leaves_queue [OF a b, of ?c 0 "''zero''" ?c ?c 0] c a b
  show ?thesis by blast
qed

text \<open>
  C7, as the code has it. A pop that succeeds removes the element of slot \<open>tail\<close>. The
  next successful push does not store its element there: it stores it at slot
  \<open>head\<close>, which is a different slot, and the vacated slot stays raw storage. The push
  moves \<^verbatim>\<open>head_\<close> on by one modulo the capacity, as the pop did with \<^verbatim>\<open>tail_\<close>, so
  slots are written and vacated in ring order and a vacated slot is written again
  when \<^verbatim>\<open>head_\<close> comes round to it.
\<close>

theorem pop_then_push_slot:
  fixes copy_ctor :: "'a \<Rightarrow> 'e + 'a"
  assumes "SPSCQueue C = Some q0" and "run copy_ctor cs q0 out = (tr, q, out')"
    and "try_pop q out' = (Returned True :: ('e, bool) outcome, q1, out1)"
    and "try_push copy_ctor v q1 = (Returned True, q2)"
  shows "buf q ! tail q = Some out1 \<and> buf q1 ! tail q = None \<and>
         head q \<noteq> tail q \<and>
         (\<exists>x. copy_ctor v = Inr x \<and> buf q2 = (buf q1)[head q := Some x] \<and>
              buf q2 ! head q = Some x) \<and>
         buf q2 ! tail q = None \<and>
         head q2 = (head q + 1) mod CAP q \<and> tail q2 = (tail q + 1) mod CAP q"
proof -
  from assms(1) have "represents q0 []" by (rule represents_init)
  from run_represents [OF this assms(2)] obtain xs where r: "represents q xs" by blast
  from r have ok: "indices_ok q" by (simp add: represents_def)
  then have h: "head q < CAP q" and t: "tail q < CAP q" by (simp_all add: indices_ok_def)
  have "(try_pop q out' :: ('e, bool) outcome \<times> 'a queue \<times> 'a) = (Returned False, q, out')"
    if "xs = []"
    using r that by (simp add: try_pop_represents_Nil)
  with assms(3) have "xs \<noteq> []" by auto
  then obtain y ys where xs: "xs = y # ys" by (cases xs) auto
  define qa where "qa = q\<lparr>buf := (buf q)[tail q := None], tail := (tail q + 1) AND MASK q\<rparr>"
  have "(try_pop q out' :: ('e, bool) outcome \<times> 'a queue \<times> 'a) = (Returned True, qa, y)"
    using r by (simp add: try_pop_represents_Cons xs qa_def)
  with assms(3) have q1: "q1 = qa" and out1: "out1 = y" by simp_all
  have ra: "represents qa ys" and slot: "buf q ! tail q = Some y" and ne: "tail q \<noteq> head q"
    using represents_pop [OF _ qa_def, of y ys] r by (simp_all add: xs)
  have ca: "CAP qa = CAP q" and ha: "head qa = head q" and ba: "buf qa = (buf q)[tail q := None]"
    and ta: "tail qa = (tail q + 1) mod CAP q"
    by (simp_all add: qa_def CAP_def mask_is_mod [OF ok])
  have oka: "indices_ok qa" using ra by (simp add: represents_def)
  from assms(4) obtain x where x: "copy_ctor v = Inr x"
    and q2: "q2 = qa\<lparr>buf := (buf qa)[head qa := Some x], head := (head qa + 1) AND MASK qa\<rparr>"
    by (auto simp: q1 try_push_represents [OF ra] split: if_splits sum.splits)
  have b2: "buf q2 = (buf qa)[head q := Some x]" and t2: "tail q2 = tail qa"
    and h2: "head q2 = (head q + 1) mod CAP q"
    by (simp_all add: q2 ha mask_is_mod [OF oka] ca)
  have "buf qa ! tail q = None" using t by (simp add: ba CAP_def)
  moreover have "buf q2 ! head q = Some x" using h by (simp add: b2 ba CAP_def)
  moreover have "buf q2 ! tail q = None" using t ne by (simp add: b2 ba CAP_def)
  ultimately show ?thesis
    using slot ne x b2 h2 t2 ta by (simp add: q1 out1)
qed

theorem pop_then_push_slot_witness:
  "SPSCQueue 2 = Some \<lparr>buf = [None, None :: nat option], head = 0, tail = 0\<rparr> \<and>
   run (Inr :: nat \<Rightarrow> unit + nat) [Push 7] \<lparr>buf = [None, None], head = 0, tail = 0\<rparr> 0 =
     ([(Push 7, Returned True, 0)], \<lparr>buf = [Some 7, None], head = 1, tail = 0\<rparr>, 0) \<and>
   try_pop \<lparr>buf = [Some 7, None], head = 1, tail = 0\<rparr> (0::nat) =
     (Returned True :: (unit, bool) outcome, \<lparr>buf = [None, None], head = 1, tail = 1\<rparr>, 7) \<and>
   try_push (Inr :: nat \<Rightarrow> unit + nat) 8 \<lparr>buf = [None, None], head = 1, tail = 1\<rparr> =
     (Returned True, \<lparr>buf = [None, Some 8], head = 0, tail = 1\<rparr>) \<and>
   buf \<lparr>buf = [None, Some (8::nat)], head = 0, tail = 1\<rparr> ! 0 = None \<and>
   buf \<lparr>buf = [None, Some (8::nat)], head = 0, tail = 1\<rparr> ! 1 = Some 8"
proof -
  let ?init = "\<lparr>buf = [None, None], head = 0, tail = 0\<rparr> :: nat queue"
  let ?a = "\<lparr>buf = [Some 7, None], head = 1, tail = 0\<rparr> :: nat queue"
  let ?b = "\<lparr>buf = [None, None], head = 1, tail = 1\<rparr> :: nat queue"
  let ?c = "\<lparr>buf = [None, Some 8], head = 0, tail = 1\<rparr> :: nat queue"
  have 1: "SPSCQueue 2 = Some ?init" by code_simp
  have 2: "run (Inr :: nat \<Rightarrow> unit + nat) [Push 7] ?init 0 = ([(Push 7, Returned True, 0)], ?a, 0)"
    by code_simp
  have 3: "try_pop ?a 0 = (Returned True :: (unit, bool) outcome, ?b, 7)" by code_simp
  have 4: "try_push (Inr :: nat \<Rightarrow> unit + nat) 8 ?b = (Returned True, ?c)" by code_simp
  from pop_then_push_slot [OF 1 2 3 4]
  have "buf ?c ! tail ?a = None" and "\<exists>x. Inr 8 = (Inr x :: unit + nat) \<and> buf ?c ! head ?a = Some x"
    by blast+
  then have "buf ?c ! 0 = None" and "buf ?c ! 1 = Some 8" by simp_all
  with 1 2 3 4 show ?thesis by blast
qed

text \<open>
  C7 as stated fails: on a queue of capacity four holding two elements, the pop vacates
  slot 0 and the push that follows stores at slot 2.
\<close>

theorem pop_then_push_same_slot_counterexample:
  "SPSCQueue 4 = Some \<lparr>buf = [None, None, None, None :: nat option], head = 0, tail = 0\<rparr> \<and>
   run (Inr :: nat \<Rightarrow> unit + nat) [Push 1, Push 2]
       \<lparr>buf = [None, None, None, None], head = 0, tail = 0\<rparr> 0 =
     ([(Push 1, Returned True, 0), (Push 2, Returned True, 0)],
      \<lparr>buf = [Some 1, Some 2, None, None], head = 2, tail = 0\<rparr>, 0) \<and>
   tail \<lparr>buf = [Some 1, Some (2::nat), None, None], head = 2, tail = 0\<rparr> = 0 \<and>
   try_pop \<lparr>buf = [Some 1, Some 2, None, None], head = 2, tail = 0\<rparr> (0::nat) =
     (Returned True :: (unit, bool) outcome,
      \<lparr>buf = [None, Some 2, None, None], head = 2, tail = 1\<rparr>, 1) \<and>
   try_push (Inr :: nat \<Rightarrow> unit + nat) 3 \<lparr>buf = [None, Some 2, None, None], head = 2, tail = 1\<rparr> =
     (Returned True, \<lparr>buf = [None, Some 2, Some 3, None], head = 3, tail = 1\<rparr>) \<and>
   buf \<lparr>buf = [None, Some 2, Some (3::nat), None], head = 3, tail = 1\<rparr> ! 0 \<noteq> Some 3 \<and>
   buf \<lparr>buf = [None, Some 2, Some (3::nat), None], head = 3, tail = 1\<rparr> ! 2 = Some 3"
proof (intro conjI)
  show "SPSCQueue 4 = Some \<lparr>buf = [None, None, None, None :: nat option], head = 0, tail = 0\<rparr>"
    by code_simp
  show "run (Inr :: nat \<Rightarrow> unit + nat) [Push 1, Push 2]
       \<lparr>buf = [None, None, None, None], head = 0, tail = 0\<rparr> 0 =
     ([(Push 1, Returned True, 0), (Push 2, Returned True, 0)],
      \<lparr>buf = [Some 1, Some 2, None, None], head = 2, tail = 0\<rparr>, 0)"
    by code_simp
  show "try_pop \<lparr>buf = [Some 1, Some 2, None, None], head = 2, tail = 0\<rparr> (0::nat) =
     (Returned True :: (unit, bool) outcome,
      \<lparr>buf = [None, Some 2, None, None], head = 2, tail = 1\<rparr>, 1)"
    by code_simp
  show "try_push (Inr :: nat \<Rightarrow> unit + nat) 3 \<lparr>buf = [None, Some 2, None, None], head = 2, tail = 1\<rparr> =
     (Returned True, \<lparr>buf = [None, Some 2, Some 3, None], head = 3, tail = 1\<rparr>)"
    by code_simp
qed simp_all

text \<open>
  C9, as the code has it. The three producer calls differ only in the constructor of
  \<^verbatim>\<open>T\<close> they run: \<^verbatim>\<open>try_push(v)\<close> the copy constructor, \<^verbatim>\<open>try_push(std::move(v))\<close>
  the move constructor, and \<^verbatim>\<open>try_emplace(v)\<close>, which forwards the lvalue \<open>v\<close>, the
  copy constructor again. For a value \<open>v\<close> from which the move constructor builds
  what the copy constructor builds (or throws what it throws), the three calls end the
  same way and leave the same queue, in every queue state.
\<close>

theorem producers_agree:
  assumes "move_ctor v = copy_ctor v"
  shows "try_push_move move_ctor v q = try_push copy_ctor v q \<and>
         try_emplace copy_ctor v q = try_push copy_ctor v q"
  unfolding try_push_def try_push_move_def try_emplace_def assms by simp

theorem producers_agree_witness:
  "Inr 5 = (if (5::nat) = 0 then Inl ''copy'' else Inr 5) \<and>
   try_push (\<lambda>v. if v = 0 then Inl ''copy'' else Inr v) 5
       \<lparr>buf = [None, Some (4::nat), None, None], head = 2, tail = 1\<rparr> =
     (Returned True, \<lparr>buf = [None, Some 4, Some 5, None], head = 3, tail = 1\<rparr>) \<and>
   try_push_move (Inr :: nat \<Rightarrow> string + nat) 5
       \<lparr>buf = [None, Some 4, None, None], head = 2, tail = 1\<rparr> =
     (Returned True, \<lparr>buf = [None, Some 4, Some 5, None], head = 3, tail = 1\<rparr>) \<and>
   try_emplace (\<lambda>v. if v = 0 then Inl ''copy'' else Inr v) (5::nat)
       \<lparr>buf = [None, Some (4::nat), None, None], head = 2, tail = 1\<rparr> =
     (Returned True, \<lparr>buf = [None, Some 4, Some 5, None], head = 3, tail = 1\<rparr>)"
proof -
  let ?q = "\<lparr>buf = [None, Some 4, None, None], head = 2, tail = 1\<rparr> :: nat queue"
  let ?copy = "\<lambda>v::nat. if v = 0 then Inl ''copy'' else Inr v"
  let ?move = "Inr :: nat \<Rightarrow> string + nat"
  have a: "try_push ?copy 5 ?q =
             (Returned True, \<lparr>buf = [None, Some 4, Some 5, None], head = 3, tail = 1\<rparr>)"
    by code_simp
  have b: "?move 5 = ?copy 5" by simp
  from producers_agree [of ?move 5 ?copy ?q, OF b] a b show ?thesis by simp
qed

text \<open>
  C9 as stated, for every value with no condition on the constructors, fails: for an
  element type whose copy constructor throws on the value 0 and whose move constructor
  does not, on a queue that is not full, \<^verbatim>\<open>try_push(v)\<close> and \<^verbatim>\<open>try_emplace(v)\<close> end
  with the exception and leave the queue as it was, while \<^verbatim>\<open>try_push(std::move(v))\<close>
  returns true and stores the element.
\<close>

theorem producers_agree_every_value_counterexample:
  "try_push (\<lambda>v. if v = 0 then Inl ''copy'' else Inr v) 0
       \<lparr>buf = [None, Some (4::nat), None, None], head = 2, tail = 1\<rparr> =
     (Raised ''copy'', \<lparr>buf = [None, Some 4, None, None], head = 2, tail = 1\<rparr>) \<and>
   try_emplace (\<lambda>v. if v = 0 then Inl ''copy'' else Inr v) (0::nat)
       \<lparr>buf = [None, Some (4::nat), None, None], head = 2, tail = 1\<rparr> =
     (Raised ''copy'', \<lparr>buf = [None, Some 4, None, None], head = 2, tail = 1\<rparr>) \<and>
   try_push_move (Inr :: nat \<Rightarrow> string + nat) 0
       \<lparr>buf = [None, Some 4, None, None], head = 2, tail = 1\<rparr> =
     (Returned True, \<lparr>buf = [None, Some 4, Some 0, None], head = 3, tail = 1\<rparr>) \<and>
   try_push_move (Inr :: nat \<Rightarrow> string + nat) 0
       \<lparr>buf = [None, Some 4, None, None], head = 2, tail = 1\<rparr> \<noteq>
     try_push (\<lambda>v. if v = 0 then Inl ''copy'' else Inr v) 0
       \<lparr>buf = [None, Some 4, None, None], head = 2, tail = 1\<rparr>"
proof -
  let ?q = "\<lparr>buf = [None, Some 4, None, None], head = 2, tail = 1\<rparr> :: nat queue"
  let ?copy = "\<lambda>v::nat. if v = 0 then Inl ''copy'' else Inr v"
  let ?move = "Inr :: nat \<Rightarrow> string + nat"
  have a: "try_push ?copy 0 ?q = (Raised ''copy'', ?q)" by code_simp
  have b: "try_emplace ?copy 0 ?q = (Raised ''copy'', ?q)" by code_simp
  have c: "try_push_move ?move 0 ?q =
             (Returned True, \<lparr>buf = [None, Some 4, Some 0, None], head = 3, tail = 1\<rparr>)"
    by code_simp
  have "try_push_move ?move 0 ?q \<noteq> try_push ?copy 0 ?q" unfolding a c by simp
  with a b c show ?thesis by blast
qed

text \<open>
  C10. In every state that calls of \<^verbatim>\<open>try_push\<close> and \<^verbatim>\<open>try_pop\<close> on one thread
  reach from a newly constructed queue, \<^verbatim>\<open>empty()\<close> and \<^verbatim>\<open>full()\<close> are not both
  true.
\<close>

theorem empty_full_exclusive:
  assumes "SPSCQueue C = Some q0" and "run copy_ctor cs q0 out = (tr, q, out')"
  shows "\<not> (empty q \<and> full q)"
proof -
  from assms(1) have "represents q0 []" by (rule represents_init)
  from run_represents [OF this assms(2)] obtain ys where r: "represents q ys" by blast
  then have "2 \<le> CAP q" by (simp add: represents_def indices_ok_def)
  with represents_empty_iff [OF r] represents_full_iff [OF r] show ?thesis by auto
qed

theorem empty_full_exclusive_witness:
  "SPSCQueue 2 = Some \<lparr>buf = [None, None :: nat option], head = 0, tail = 0\<rparr> \<and>
   run (Inr :: nat \<Rightarrow> unit + nat) [Push 7, Push 8, Pop]
     \<lparr>buf = [None, None], head = 0, tail = 0\<rparr> 0 =
     ([(Push 7, Returned True, 0), (Push 8, Returned False, 0), (Pop, Returned True, 7)],
      \<lparr>buf = [None, None], head = 1, tail = 1\<rparr>, 7) \<and>
   \<not> (empty \<lparr>buf = [None, None :: nat option], head = 1, tail = 1\<rparr> \<and>
      full \<lparr>buf = [None, None :: nat option], head = 1, tail = 1\<rparr>)"
proof -
  let ?init = "\<lparr>buf = [None, None], head = 0, tail = 0\<rparr> :: nat queue"
  have a: "SPSCQueue 2 = Some ?init" by code_simp
  have b: "run (Inr :: nat \<Rightarrow> unit + nat) [Push 7, Push 8, Pop] ?init 0 =
     ([(Push 7, Returned True, 0), (Push 8, Returned False, 0), (Pop, Returned True, 7)],
      \<lparr>buf = [None, None], head = 1, tail = 1\<rparr>, 7)"
    by code_simp
  from empty_full_exclusive [OF a b] a b show ?thesis by blast
qed

end
